theory Spec2Isabelle
  imports Main "HOL-Library.Word"
begin

unbundle bit_operations_syntax

section \<open>tinyvm_min: a four-opcode assembler and stack interpreter\<close>

text \<open>
  The development embeds the two functions of \<^verbatim>\<open>tinyvm_min.cpp\<close>:
  \<^verbatim>\<open>assemble_lines\<close> (text lines to opcode bytes) and \<^verbatim>\<open>run_bytecode\<close>
  (the interpreter loop).  A \<^verbatim>\<open>std::string\<close> is a \<^typ>\<open>string\<close> (a list of 8-bit
  characters), a \<^verbatim>\<open>uint8_t\<close> is an \<^typ>\<open>8 word\<close>, the \<^verbatim>\<open>int\<close> of the execution
  stack is a \<^typ>\<open>32 word\<close> read with \<^const>\<open>sint\<close>, and a \<^verbatim>\<open>size_t\<close> index
  that never leaves the bounds of its vector is a \<^typ>\<open>nat\<close>.
\<close>

subsection \<open>Opcodes and the mnemonic table\<close>

type_synonym byte = "8 word"

definition OP_READ :: byte where "OP_READ = 0x01"
definition OP_PRINT :: byte where "OP_PRINT = 0x02"
definition OP_ADD :: byte where "OP_ADD = 0x03"
definition OP_HALT :: byte where "OP_HALT = 0xFF"

definition MNEM :: "string \<rightharpoonup> byte" where
  "MNEM = map_of
     [(''READ'', OP_READ),
      (''PRINT'', OP_PRINT),
      (''ADD'', OP_ADD),
      (''HALT'', OP_HALT)]"

subsection \<open>The string operations used for trimming\<close>

text \<open>
  \<^verbatim>\<open>s.find_first_not_of(chars)\<close>: the index of the first character of \<open>s\<close> that is
  not in \<open>chars\<close>; \<open>None\<close> stands for \<^verbatim>\<open>string::npos\<close>.
\<close>

fun find_first_not_of :: "string \<Rightarrow> string \<Rightarrow> nat option" where
  "find_first_not_of [] chars = None"
| "find_first_not_of (c # cs) chars =
     (if c \<notin> set chars then Some 0
      else map_option Suc (find_first_not_of cs chars))"

text \<open>
  \<^verbatim>\<open>s.find_last_not_of(chars)\<close>: the index of the last character of \<open>s\<close> that is
  not in \<open>chars\<close>, found by scanning from the back.
\<close>

definition find_last_not_of :: "string \<Rightarrow> string \<Rightarrow> nat option" where
  "find_last_not_of s chars =
     (case find_first_not_of (rev s) chars of
        None \<Rightarrow> None
      | Some k \<Rightarrow> Some (length s - 1 - k))"

text \<open>\<^verbatim>\<open>s.substr(pos, n)\<close> for \<open>pos \<le> size\<close>: at most \<open>n\<close> characters from \<open>pos\<close>.\<close>

definition substr :: "string \<Rightarrow> nat \<Rightarrow> nat \<Rightarrow> string" where
  "substr s pos n = take n (drop pos s)"

text \<open>The whitespace set \<^verbatim>\<open>" \t\r\n"\<close>.\<close>

definition whitespace :: string where
  "whitespace = [CHR '' '', CHR 0x09, CHR 0x0D, CHR 0x0A]"

text \<open>
  Lines 40 to 43 of the source.  \<open>None\<close> is the \<^verbatim>\<open>continue\<close> taken when
  \<^verbatim>\<open>l == string::npos\<close>.  When \<open>l\<close> is an index, \<open>r\<close> is one too (lemma
  \<open>find_last_not_of_Some\<close> below); the branch for \<^verbatim>\<open>r == npos\<close> is written out as
  the 64-bit unsigned arithmetic \<^verbatim>\<open>npos - l + 1\<close> would compute it, and is never taken.
\<close>

definition trim :: "string \<Rightarrow> string option" where
  "trim raw =
     (case find_first_not_of raw whitespace of
        None \<Rightarrow> None
      | Some l \<Rightarrow>
          (case find_last_not_of raw whitespace of
             Some r \<Rightarrow> Some (substr raw l (r - l + 1))
           | None \<Rightarrow> Some (substr raw l ((2 ^ 64 - l) mod 2 ^ 64))))"

subsection \<open>The assembler\<close>

text \<open>Decimal output of a \<^verbatim>\<open>size_t\<close>, as \<^verbatim>\<open>operator<<\<close> prints it.\<close>

definition digit_char :: "nat \<Rightarrow> char" where
  "digit_char d = char_of (48 + d)"

fun show_nat :: "nat \<Rightarrow> string" where
  "show_nat n =
     (if n < 10 then [digit_char n]
      else show_nat (n div 10) @ [digit_char (n mod 10)])"

declare show_nat.simps [simp del]

text \<open>
  The string \<^verbatim>\<open>oss.str()\<close> built at line 48; the argument \<open>i\<close> is the 0-based index
  of the offending line, printed as \<open>i + 1\<close>.
\<close>

definition invalid_instruction :: "nat \<Rightarrow> string \<Rightarrow> string" where
  "invalid_instruction i line =
     ''Linha '' @ show_nat (i + 1) @ '': instrucao invalida: '' @ [CHR 0x27]
       @ line @ [CHR 0x27]"

text \<open>
  Line 49 throws a \<^verbatim>\<open>std::runtime_error\<close> built from that string.  The exception
  gives its message only through \<^verbatim>\<open>what()\<close>, a C string: the characters of the
  string it was built from up to, and without, the first NUL character.  That is what the
  handler at line 131 prints.
\<close>

definition what :: "string \<Rightarrow> string" where
  "what msg = takeWhile (\<lambda>c. c \<noteq> CHR 0x00) msg"

text \<open>
  The \<^verbatim>\<open>for\<close> loop of \<^verbatim>\<open>assemble_lines\<close>: \<open>i\<close> is the index of the line at the
  head of the remaining lines, \<open>code\<close> the bytes pushed so far.  The exception is the
  left summand, carrying what its \<^verbatim>\<open>what()\<close> returns.
\<close>

fun assemble_loop :: "nat \<Rightarrow> string list \<Rightarrow> byte list \<Rightarrow> string + byte list" where
  "assemble_loop i [] code = Inr code"
| "assemble_loop i (raw # rest) code =
     (case trim raw of
        None \<Rightarrow> assemble_loop (i + 1) rest code
      | Some line \<Rightarrow>
          if line = [] \<or> hd line = CHR ''#'' then assemble_loop (i + 1) rest code
          else (case MNEM line of
                  None \<Rightarrow> Inl (what (invalid_instruction i line))
                | Some opc \<Rightarrow> assemble_loop (i + 1) rest (code @ [opc])))"

definition assemble_lines :: "string list \<Rightarrow> string + byte list" where
  "assemble_lines lines = assemble_loop 0 lines []"

subsection \<open>Notions for stating the assembler's properties\<close>

text \<open>
  These follow the wording of the specification rather than the code: whitespace, the
  text of a line with leading and trailing whitespace removed, a line that is skipped
  (blank after trimming, or its first non-whitespace character is \<open>#\<close>), and a line
  that is an error (trimmed text non-empty, not a comment, not a mnemonic).  The lemmas
  \<open>trim_eq\<close> and \<open>assemble_loop_Cons\<close> below relate them to what the code computes.
\<close>

definition is_ws :: "char \<Rightarrow> bool" where
  "is_ws c = (c \<in> set whitespace)"

definition trimmed :: "string \<Rightarrow> string" where
  "trimmed raw = rev (dropWhile is_ws (rev (dropWhile is_ws raw)))"

definition ignorable :: "string \<Rightarrow> bool" where
  "ignorable raw = (case dropWhile is_ws raw of [] \<Rightarrow> True | c # _ \<Rightarrow> c = CHR ''#'')"

definition invalid_line :: "string \<Rightarrow> bool" where
  "invalid_line raw =
     (trimmed raw \<noteq> [] \<and> hd (trimmed raw) \<noteq> CHR ''#'' \<and> MNEM (trimmed raw) = None)"

subsection \<open>The interpreter\<close>

text \<open>
  The interpreter's state: the instruction pointer, the execution stack (a
  \<^verbatim>\<open>vector<int>\<close>, the top at the back), and the two streams it touches.  Standard
  input is the list of lines still to be read: each element is the string one successful
  \<^verbatim>\<open>std::getline\<close> stores, and on the empty list \<^verbatim>\<open>getline\<close> fails.  Standard
  output is the list of bytes written so far.
\<close>

record vm_state =
  ip :: nat
  stack :: "32 word list"
  inp :: "string list"
  out :: "byte list"

text \<open>
  The lambda \<^verbatim>\<open>read_byte_from_stdin\<close>: the value returned and the input left.
  \<^const>\<open>of_char\<close> is the cast through \<^verbatim>\<open>unsigned char\<close> to \<^verbatim>\<open>int\<close>.
\<close>

fun read_byte_from_stdin :: "string list \<Rightarrow> 32 word \<times> string list" where
  "read_byte_from_stdin [] = (0, [])"
| "read_byte_from_stdin (s # rest) = (if s = [] then 0 else of_char (hd s), rest)"

text \<open>
  What one pass through the \<^verbatim>\<open>switch\<close> does: \<open>Break\<close> leaves the switch and goes
  round the loop again, \<open>Return\<close> leaves \<^verbatim>\<open>run_bytecode\<close> with a status.  The
  diagnostics written to \<^verbatim>\<open>cerr\<close> are left out.  The sum \<^verbatim>\<open>a + b\<close> of ADD is
  taken in 32-bit arithmetic; both summands come off the stack, whose values stay
  between 0 and 255 as shown below, so the \<^verbatim>\<open>int\<close> addition never overflows.
\<close>

datatype flow = Break vm_state | Return int vm_state

definition exec_op :: "byte \<Rightarrow> vm_state \<Rightarrow> flow" where
  "exec_op opc s =
     (if opc = OP_READ then
        (let (b, rest) = read_byte_from_stdin (inp s)
         in Break (s\<lparr>stack := stack s @ [b AND 0xFF], inp := rest\<rparr>))
      else if opc = OP_PRINT then
        (if stack s = [] then Return 2 s
         else
           (let b = last (stack s)
            in Break (s\<lparr>stack := butlast (stack s),
                         out := out s @ [ucast (b AND 0xFF)]\<rparr>)))
      else if opc = OP_ADD then
        (if length (stack s) < 2 then Return 2 s
         else
           (let a = last (stack s);
                b = last (butlast (stack s))
            in Break (s\<lparr>stack := butlast (butlast (stack s)) @ [(a + b) AND 0xFF]\<rparr>)))
      else if opc = OP_HALT then Return 0 s
      else Return 3 s)"

lemma exec_op_ip: "exec_op opc s = Break s' \<Longrightarrow> ip s' = ip s"
  by (auto simp: exec_op_def Let_def split: if_splits prod.splits)

text \<open>
  The \<^verbatim>\<open>while\<close> loop: fetch \<^verbatim>\<open>bc[ip++]\<close>, dispatch, and return 0 when the
  instruction pointer has left the bytecode.  The result is the status together with the
  state at the moment of returning.
\<close>

function run_loop :: "byte list \<Rightarrow> vm_state \<Rightarrow> int \<times> vm_state" where
  "run_loop bc s =
     (if ip s < length bc then
        (case exec_op (bc ! ip s) (s\<lparr>ip := ip s + 1\<rparr>) of
           Break s' \<Rightarrow> run_loop bc s'
         | Return status s' \<Rightarrow> (status, s'))
      else (0, s))"
  by pat_completeness auto
termination
proof (relation "measure (\<lambda>(bc, s). length bc - ip s)")
  show "wf (measure (\<lambda>(bc, s). length bc - ip s))" by simp
next
  fix bc :: "byte list" and s s' :: vm_state
  assume "ip s < length bc" and "exec_op (bc ! ip s) (s\<lparr>ip := ip s + 1\<rparr>) = Break s'"
  then show "((bc, s'), (bc, s)) \<in> measure (\<lambda>(bc, s). length bc - ip s)"
    using exec_op_ip [of "bc ! ip s" "s\<lparr>ip := ip s + 1\<rparr>" s'] by simp
qed

declare run_loop.simps [simp del]

definition initial_state :: "string list \<Rightarrow> vm_state" where
  "initial_state stdin = \<lparr>ip = 0, stack = [], inp = stdin, out = []\<rparr>"

definition run_bytecode :: "byte list \<Rightarrow> string list \<Rightarrow> int \<times> vm_state" where
  "run_bytecode bc stdin = run_loop bc (initial_state stdin)"

text \<open>
  Two ways of looking at the same loop, used to state properties of its runs.
  \<open>loop_head n bc s\<close> is the state with which the loop test is reached for the
  \<open>(n+1)\<close>-th time when the loop is entered in \<open>s\<close>, or \<open>None\<close> when the function has
  returned before that.  \<open>run_bounded n bc s\<close> is the loop allowed at most \<open>n\<close> passes
  through its body: \<open>None\<close> when that is not enough to return.
\<close>

fun loop_head :: "nat \<Rightarrow> byte list \<Rightarrow> vm_state \<Rightarrow> vm_state option" where
  "loop_head 0 bc s = Some s"
| "loop_head (Suc n) bc s =
     (if ip s < length bc then
        (case exec_op (bc ! ip s) (s\<lparr>ip := ip s + 1\<rparr>) of
           Break s' \<Rightarrow> loop_head n bc s'
         | Return status s' \<Rightarrow> None)
      else None)"

fun run_bounded :: "nat \<Rightarrow> byte list \<Rightarrow> vm_state \<Rightarrow> (int \<times> vm_state) option" where
  "run_bounded n bc s =
     (if ip s < length bc then
        (case n of
           0 \<Rightarrow> None
         | Suc m \<Rightarrow>
             (case exec_op (bc ! ip s) (s\<lparr>ip := ip s + 1\<rparr>) of
                Break s' \<Rightarrow> run_bounded m bc s'
              | Return status s' \<Rightarrow> Some (status, s')))
      else Some (0, s))"

declare run_bounded.simps [simp del]

text \<open>
  What the run of \<open>bc\<close> on input \<open>stdin\<close> does in pass \<open>n\<close> of the loop, counted from
  0: \<open>fetch_at\<close> is the opcode it fetches together with the state at the loop head
  before the fetch, \<open>off_end_at\<close> says that the loop test fails there instead.  Both are
  \<open>None\<close>/\<open>False\<close> when the run has returned before that pass.
\<close>

definition fetch_at :: "nat \<Rightarrow> byte list \<Rightarrow> string list \<Rightarrow> (byte \<times> vm_state) option" where
  "fetch_at n bc stdin =
     (case loop_head n bc (initial_state stdin) of
        None \<Rightarrow> None
      | Some s \<Rightarrow> if ip s < length bc then Some (bc ! ip s, s) else None)"

definition off_end_at :: "nat \<Rightarrow> byte list \<Rightarrow> string list \<Rightarrow> bool" where
  "off_end_at n bc stdin =
     (case loop_head n bc (initial_state stdin) of
        None \<Rightarrow> False
      | Some s \<Rightarrow> length bc \<le> ip s)"

text \<open>Every value on the stack, read as an \<^verbatim>\<open>int\<close>, lies between 0 and 255.\<close>

definition stack_in_range :: "vm_state \<Rightarrow> bool" where
  "stack_in_range s = list_all (\<lambda>v. 0 \<le> sint v \<and> sint v \<le> 255) (stack s)"

section \<open>Properties of the assembler\<close>

subsection \<open>Trimming\<close>

lemma find_first_not_of_eq:
  "find_first_not_of s cs =
     (if dropWhile (\<lambda>c. c \<in> set cs) s = [] then None
      else Some (length (takeWhile (\<lambda>c. c \<in> set cs) s)))"
  by (induction s) auto

lemma find_last_not_of_eq:
  "find_last_not_of s cs =
     (if dropWhile (\<lambda>c. c \<in> set cs) (rev s) = [] then None
      else Some (length s - 1 - length (takeWhile (\<lambda>c. c \<in> set cs) (rev s))))"
  by (simp add: find_last_not_of_def find_first_not_of_eq)

lemma rev_dropWhile_rev:
  "rev (dropWhile P (rev d)) = take (length d - length (takeWhile P (rev d))) d"
proof -
  have "dropWhile P (rev d) = drop (length (takeWhile P (rev d))) (rev d)"
    by (rule dropWhile_eq_drop)
  then show ?thesis by (simp add: rev_drop)
qed

lemma takeWhile_rev_dropWhile:
  assumes "dropWhile P xs \<noteq> []"
  shows "takeWhile P (rev xs) = takeWhile P (rev (dropWhile P xs))"
proof -
  obtain x where x: "x \<in> set (dropWhile P xs)" "\<not> P x"
    using assms by (metis hd_dropWhile hd_in_set)
  have "rev xs = rev (dropWhile P xs) @ rev (takeWhile P xs)"
    by (metis rev_append takeWhile_dropWhile_id)
  moreover have "takeWhile P (rev (dropWhile P xs) @ rev (takeWhile P xs))
      = takeWhile P (rev (dropWhile P xs))"
    using x by (intro takeWhile_append1[of x]) auto
  ultimately show ?thesis by simp
qed

text \<open>The whitespace at the two ends of a line that is not all whitespace does not overlap.\<close>

lemma takeWhile_both_ends:
  assumes "dropWhile P xs \<noteq> []"
  shows "length (takeWhile P (rev xs)) < length (dropWhile P xs)"
proof -
  define d where "d = dropWhile P xs"
  have "hd d \<in> set d" "\<not> P (hd d)"
    using assms hd_dropWhile[of P xs] by (simp_all add: d_def)
  then have "\<exists>x\<in>set (rev d). \<not> P x"
    by auto
  then have "takeWhile P (rev d) \<noteq> rev d"
    by (simp del: set_rev)
  then have "length (takeWhile P (rev d)) \<noteq> length (rev d)"
    by (metis takeWhile_eq_take take_all_iff order_refl)
  then have "length (takeWhile P (rev d)) < length d"
    using length_takeWhile_le[of P "rev d"] by simp
  moreover have "takeWhile P (rev xs) = takeWhile P (rev d)"
    unfolding d_def using assms by (rule takeWhile_rev_dropWhile)
  ultimately show ?thesis by (simp add: d_def)
qed

lemma find_last_not_of_Some:
  assumes "find_first_not_of raw cs = Some l"
  shows "\<exists>r. find_last_not_of raw cs = Some r \<and> l \<le> r \<and> r < length raw"
proof -
  define P where "P = (\<lambda>c. c \<in> set cs)"
  have ne: "dropWhile P raw \<noteq> []" and l: "l = length (takeWhile P raw)"
    using assms by (auto simp: find_first_not_of_eq P_def split: if_splits)
  have "length (dropWhile P raw) = length raw - l"
    unfolding l by (simp add: dropWhile_eq_drop)
  with takeWhile_both_ends[OF ne]
  have k: "length (takeWhile P (rev raw)) + l < length raw" by simp
  have "\<exists>x\<in>set raw. \<not> P x" using ne by auto
  then have "find_last_not_of raw cs = Some (length raw - 1 - length (takeWhile P (rev raw)))"
    by (auto simp: find_last_not_of_eq P_def)
  with k show ?thesis by auto
qed

lemma trim_eq:
  "trim raw = (if dropWhile is_ws raw = [] then None else Some (trimmed raw))"
proof (cases "dropWhile is_ws raw = []")
  case True
  then show ?thesis
    by (simp add: trim_def find_first_not_of_eq is_ws_def[abs_def])
next
  case False
  define P where "P = (\<lambda>c. c \<in> set whitespace)"
  have P: "is_ws = P" by (simp add: P_def is_ws_def[abs_def])
  define d where "d = dropWhile P raw"
  define l where "l = length (takeWhile P raw)"
  define k where "k = length (takeWhile P (rev raw))"
  have ne: "dropWhile P raw \<noteq> []" using False by (simp add: P)
  have dl: "d = drop l raw" unfolding d_def l_def by (rule dropWhile_eq_drop)
  have k: "k = length (takeWhile P (rev d))"
    unfolding k_def d_def using ne by (rule arg_cong[OF takeWhile_rev_dropWhile])
  have "k < length d" unfolding k_def d_def using ne by (rule takeWhile_both_ends)
  have len: "length d = length raw - l" by (simp add: dl)
  have "\<exists>x\<in>set raw. \<not> P x" using ne by auto
  then have "trim raw = Some (substr raw l (length raw - 1 - k - l + 1))"
    by (auto simp add: trim_def find_first_not_of_eq find_last_not_of_eq P_def[symmetric] l_def k_def)
  moreover have "length raw - 1 - k - l + 1 = length d - k"
    using \<open>k < length d\<close> len by simp
  moreover have "trimmed raw = take (length d - k) d"
    by (simp add: trimmed_def P d_def[symmetric] rev_dropWhile_rev k)
  ultimately show ?thesis using False by (simp add: substr_def dl)
qed

lemma trimmed_blank: "dropWhile is_ws raw = [] \<Longrightarrow> trimmed raw = []"
  by (simp add: trimmed_def del: dropWhile_eq_Nil_conv)

lemma trimmed_hd:
  assumes "dropWhile is_ws raw \<noteq> []"
  shows "trimmed raw \<noteq> [] \<and> hd (trimmed raw) = hd (dropWhile is_ws raw)"
proof -
  define d where "d = dropWhile is_ws raw"
  have "takeWhile is_ws (rev raw) = takeWhile is_ws (rev d)"
    unfolding d_def using assms by (rule takeWhile_rev_dropWhile)
  then have "length (takeWhile is_ws (rev d)) < length d"
    using takeWhile_both_ends[OF assms] by (simp add: d_def)
  moreover have "trimmed raw = take (length d - length (takeWhile is_ws (rev d))) d"
    by (simp add: trimmed_def d_def[symmetric] rev_dropWhile_rev)
  ultimately show ?thesis
    by (cases d) (auto simp: d_def[symmetric] take_Cons split: nat.splits)
qed

lemma ignorable_iff: "ignorable raw \<longleftrightarrow> trimmed raw = [] \<or> hd (trimmed raw) = CHR ''#''"
proof (cases "dropWhile is_ws raw = []")
  case True
  then show ?thesis by (simp add: ignorable_def trimmed_blank del: dropWhile_eq_Nil_conv)
next
  case False
  with trimmed_hd[OF False] show ?thesis
    by (cases "dropWhile is_ws raw") (auto simp: ignorable_def)
qed

lemma invalid_line_iff: "invalid_line raw \<longleftrightarrow> \<not> ignorable raw \<and> MNEM (trimmed raw) = None"
  by (auto simp: invalid_line_def ignorable_iff)

lemma MNEM_Some: "MNEM t = Some opc \<Longrightarrow> t \<noteq> [] \<and> hd t \<noteq> CHR ''#''"
  by (auto simp: MNEM_def split: if_splits)

lemma MNEM_ignorable: "ignorable raw \<Longrightarrow> MNEM (trimmed raw) = None"
  using MNEM_Some[of "trimmed raw"] by (cases "MNEM (trimmed raw)") (auto simp: ignorable_iff)

subsection \<open>Line numbers in messages\<close>

lemma digit_char_inj: "a < 10 \<Longrightarrow> b < 10 \<Longrightarrow> digit_char a = digit_char b \<Longrightarrow> a = b"
  by (simp add: digit_char_def)

lemma show_nat_length: "length (show_nat n) = 1 \<longleftrightarrow> n < 10"
proof (cases "n < 10")
  case True
  then show ?thesis by (simp add: show_nat.simps[of n])
next
  case False
  have "show_nat (n div 10) \<noteq> []"
    by (simp add: show_nat.simps[of "n div 10"])
  then show ?thesis using False by (simp add: show_nat.simps[of n])
qed

text \<open>The decimal numeral determines the number: different line numbers print differently.\<close>

lemma show_nat_inj: "show_nat n = show_nat m \<Longrightarrow> n = m"
proof (induction n arbitrary: m rule: show_nat.induct)
  case (1 n)
  have same: "n < 10 \<longleftrightarrow> m < 10"
    using "1.prems" show_nat_length[of n] show_nat_length[of m] by simp
  show ?case
  proof (cases "n < 10")
    case True
    with same "1.prems" show ?thesis
      by (simp add: show_nat.simps[of n] show_nat.simps[of m] digit_char_inj)
  next
    case False
    with same "1.prems" have "show_nat (n div 10) = show_nat (m div 10)"
      and d: "digit_char (n mod 10) = digit_char (m mod 10)"
      by (simp_all add: show_nat.simps[of n] show_nat.simps[of m])
    then have "n div 10 = m div 10" using "1.IH"[OF False] by simp
    moreover have "n mod 10 = m mod 10" using d by (simp add: digit_char_inj)
    ultimately show ?thesis by (metis div_mult_mod_eq)
  qed
qed

subsection \<open>The assembly loop\<close>

text \<open>One pass through the loop body, in the words of the specification.\<close>

lemma assemble_loop_Cons:
  "assemble_loop i (raw # rest) code =
     (if ignorable raw then assemble_loop (i + 1) rest code
      else (case MNEM (trimmed raw) of
              None \<Rightarrow> Inl (what (invalid_instruction i (trimmed raw)))
            | Some opc \<Rightarrow> assemble_loop (i + 1) rest (code @ [opc])))"
proof (cases "dropWhile is_ws raw = []")
  case True
  then show ?thesis by (simp add: trim_eq ignorable_def del: dropWhile_eq_Nil_conv)
next
  case False
  then show ?thesis using trimmed_hd[OF False]
    by (auto simp add: trim_eq ignorable_iff)
qed

lemma assemble_loop_valid:
  "\<forall>raw\<in>set lines. \<not> invalid_line raw \<Longrightarrow>
   assemble_loop i lines code = Inr (code @ List.map_filter (\<lambda>raw. MNEM (trimmed raw)) lines)"
proof (induction lines arbitrary: i code)
  case Nil
  then show ?case by simp
next
  case (Cons raw rest)
  then show ?case
    by (auto simp: assemble_loop_Cons MNEM_ignorable invalid_line_iff
        simp del: assemble_loop.simps split: option.splits)
qed

lemma assemble_loop_invalid:
  "k < length lines \<Longrightarrow> invalid_line (lines ! k) \<Longrightarrow> \<forall>j<k. \<not> invalid_line (lines ! j) \<Longrightarrow>
   assemble_loop i lines code = Inl (what (invalid_instruction (i + k) (trimmed (lines ! k))))"
proof (induction lines arbitrary: i code k)
  case Nil
  then show ?case by simp
next
  case (Cons raw rest)
  show ?case
  proof (cases k)
    case 0
    with Cons.prems show ?thesis
      by (simp add: assemble_loop_Cons invalid_line_iff del: assemble_loop.simps)
  next
    case (Suc k')
    have ok: "\<not> invalid_line raw" using Cons.prems(3) Suc by auto
    have k': "k' < length rest" "invalid_line (rest ! k')" "\<forall>j<k'. \<not> invalid_line (rest ! j)"
      using Cons.prems Suc by auto
    have IH: "\<And>i code. assemble_loop i rest code
        = Inl (what (invalid_instruction (i + k') (trimmed (rest ! k'))))"
      using Cons.IH[OF k'] .
    show ?thesis using ok
      by (auto simp: assemble_loop_Cons invalid_line_iff IH Suc simp del: assemble_loop.simps
          split: option.splits)
  qed
qed

lemma MNEM_table:
  "MNEM t = Some opc \<longleftrightarrow>
     (t = ''READ'' \<and> opc = 0x01) \<or> (t = ''PRINT'' \<and> opc = 0x02) \<or>
     (t = ''ADD'' \<and> opc = 0x03) \<or> (t = ''HALT'' \<and> opc = 0xFF)"
  by (auto simp: MNEM_def OP_READ_def OP_PRINT_def OP_ADD_def OP_HALT_def)

text \<open>
  Claim C1.  The four lines \<open>READ\<close>, \<open>PRINT\<close>, \<open>ADD\<close>, \<open>HALT\<close> assemble to the
  bytes \<open>01 02 03 FF\<close>.  The table has exactly the four entries READ to 0x01, PRINT to
  0x02, ADD to 0x03 and HALT to 0xFF.  In general a line whose trimmed text is a mnemonic
  makes the loop append that mnemonic's opcode to the bytes pushed so far and go on with
  the next line, so a program without invalid lines assembles to the opcodes of its
  mnemonic lines, in the order of the lines.
\<close>

theorem assemble_mnemonics:
  "assemble_lines [''READ'', ''PRINT'', ''ADD'', ''HALT''] = Inr [0x01, 0x02, 0x03, 0xFF]
   \<and> (MNEM t = Some opc \<longleftrightarrow>
        (t = ''READ'' \<and> opc = 0x01) \<or> (t = ''PRINT'' \<and> opc = 0x02) \<or>
        (t = ''ADD'' \<and> opc = 0x03) \<or> (t = ''HALT'' \<and> opc = 0xFF))
   \<and> (MNEM (trimmed raw) = Some opc \<longrightarrow>
        assemble_loop i (raw # rest) code = assemble_loop (i + 1) rest (code @ [opc]))
   \<and> ((\<forall>raw\<in>set lines. \<not> invalid_line raw) \<longrightarrow>
        assemble_lines lines = Inr (List.map_filter (\<lambda>raw. MNEM (trimmed raw)) lines))"
proof (intro conjI impI)
  show "assemble_lines [''READ'', ''PRINT'', ''ADD'', ''HALT''] = Inr [0x01, 0x02, 0x03, 0xFF]"
    by code_simp
next
  show "MNEM t = Some opc \<longleftrightarrow>
        (t = ''READ'' \<and> opc = 0x01) \<or> (t = ''PRINT'' \<and> opc = 0x02) \<or>
        (t = ''ADD'' \<and> opc = 0x03) \<or> (t = ''HALT'' \<and> opc = 0xFF)"
    by (rule MNEM_table)
next
  assume m: "MNEM (trimmed raw) = Some opc"
  then have "\<not> ignorable raw"
    using MNEM_ignorable[of raw] by auto
  with m show "assemble_loop i (raw # rest) code = assemble_loop (i + 1) rest (code @ [opc])"
    by (simp add: assemble_loop_Cons del: assemble_loop.simps)
next
  assume "\<forall>raw\<in>set lines. \<not> invalid_line raw"
  then show "assemble_lines lines = Inr (List.map_filter (\<lambda>raw. MNEM (trimmed raw)) lines)"
    by (simp add: assemble_lines_def assemble_loop_valid)
qed

theorem assemble_mnemonics_witness:
  "MNEM (trimmed ''  ADD '') = Some 0x03
   \<and> assemble_loop 4 [''  ADD '', ''HALT''] [0x01] = assemble_loop 5 [''HALT''] [0x01, 0x03]
   \<and> list_all (\<lambda>raw. \<not> invalid_line raw)
         [''# sum'', '' READ'', '''', ''READ'', ''ADD  '', ''PRINT'', ''HALT'']
   \<and> assemble_lines [''# sum'', '' READ'', '''', ''READ'', ''ADD  '', ''PRINT'', ''HALT'']
       = Inr [0x01, 0x01, 0x03, 0x02, 0xFF]"
proof -
  have h1: "MNEM (trimmed ''  ADD '') = Some 0x03"
    by code_simp
  have h2: "\<forall>raw\<in>set [''# sum'', '' READ'', '''', ''READ'', ''ADD  '', ''PRINT'', ''HALT''].
         \<not> invalid_line raw"
    by code_simp
  have e: "List.map_filter (\<lambda>raw. MNEM (trimmed raw))
      [''# sum'', '' READ'', '''', ''READ'', ''ADD  '', ''PRINT'', ''HALT'']
      = [0x01, 0x01, 0x03, 0x02, 0xFF]"
    by code_simp
  from assemble_mnemonics
    [of "''  ADD ''" "0x03" "''  ADD ''" 4 "[''HALT'']" "[0x01]"
        "[''# sum'', '' READ'', '''', ''READ'', ''ADD  '', ''PRINT'', ''HALT'']"]
    h1 h2 e
  show ?thesis by (simp add: list_all_iff)
qed

text \<open>
  What the message of the exception is: the text built at line 48 when the offending text
  has no NUL character, and otherwise that text cut before the first NUL of the offending
  text, without the closing quote.
\<close>

lemma digit_char_not_nul: "d < 10 \<Longrightarrow> digit_char d \<noteq> CHR 0x00"
proof
  assume d: "d < 10" and "digit_char d = CHR 0x00"
  then have "(of_char (char_of (48 + d)) :: nat) = of_char (CHR 0x00)"
    by (simp only: digit_char_def)
  then show False using d by simp
qed

lemma show_nat_not_nul: "CHR 0x00 \<notin> set (show_nat n)"
proof (induction n rule: show_nat.induct)
  case (1 n)
  show ?case
  proof (cases "n < 10")
    case True
    then show ?thesis using digit_char_not_nul[of n] by (auto simp: show_nat.simps[of n])
  next
    case False
    then show ?thesis
      using "1.IH" digit_char_not_nul[of "n mod 10"] by (auto simp: show_nat.simps[of n])
  qed
qed

lemma what_invalid_instruction:
  "what (invalid_instruction i t) =
     ''Linha '' @ show_nat (i + 1) @ '': instrucao invalida: '' @ [CHR 0x27]
       @ (if CHR 0x00 \<in> set t then takeWhile (\<lambda>c. c \<noteq> CHR 0x00) t else t @ [CHR 0x27])"
proof -
  let ?P = "\<lambda>c. c \<noteq> CHR 0x00"
  have num: "takeWhile ?P (show_nat n @ ys) = show_nat n @ takeWhile ?P ys" for n ys
    using show_nat_not_nul[of n] by (intro takeWhile_append2) auto
  have quoted: "takeWhile ?P (t @ [CHR 0x27])
      = (if CHR 0x00 \<in> set t then takeWhile ?P t else t @ [CHR 0x27])"
  proof (cases "CHR 0x00 \<in> set t")
    case True
    then have "takeWhile ?P (t @ [CHR 0x27]) = takeWhile ?P t"
      by (intro takeWhile_append1[of "CHR 0x00"]) auto
    with True show ?thesis by simp
  next
    case False
    then have "takeWhile ?P (t @ [CHR 0x27]) = t @ takeWhile ?P [CHR 0x27]"
      by (intro takeWhile_append2) auto
    with False show ?thesis by simp
  qed
  have "what (invalid_instruction i t)
      = ''Linha '' @ takeWhile ?P (show_nat (i + 1) @ '': instrucao invalida: '' @ [CHR 0x27]
          @ t @ [CHR 0x27])"
    by (simp add: what_def invalid_instruction_def)
  also have "\<dots> = ''Linha '' @ show_nat (i + 1) @ '': instrucao invalida: '' @ [CHR 0x27]
      @ takeWhile ?P (t @ [CHR 0x27])"
    by (simp add: num)
  finally show ?thesis by (simp only: quoted)
qed

text \<open>
  What the code does when some line is invalid: it fails at the first such line, the
  message is \<^const>\<open>what\<close> of the text built for that line and its position counted
  from 1, the decimal number in it belongs to no other position, and the lines after it
  are not looked at.  The message shows the whole trimmed text, between quotes, when that
  text has no NUL character.
\<close>

lemma assemble_lines_first_invalid:
  assumes "\<exists>raw\<in>set lines. invalid_line raw"
  shows "\<exists>k<length lines.
           invalid_line (lines ! k) \<and> (\<forall>j<k. \<not> invalid_line (lines ! j))
           \<and> assemble_lines lines =
               Inl (what (''Linha '' @ show_nat (k + 1) @ '': instrucao invalida: ''
                          @ [CHR 0x27] @ trimmed (lines ! k) @ [CHR 0x27]))
           \<and> (CHR 0x00 \<notin> set (trimmed (lines ! k)) \<longrightarrow>
                assemble_lines lines =
                  Inl (''Linha '' @ show_nat (k + 1) @ '': instrucao invalida: ''
                       @ [CHR 0x27] @ trimmed (lines ! k) @ [CHR 0x27]))
           \<and> (\<forall>m. show_nat m = show_nat (k + 1) \<longrightarrow> m = k + 1)
           \<and> (\<forall>later. assemble_lines (take (Suc k) lines @ later) = assemble_lines lines)"
proof -
  define bad where "bad = (\<lambda>k. k < length lines \<and> invalid_line (lines ! k))"
  have "\<exists>k. bad k"
    using assms by (auto simp: bad_def in_set_conv_nth)
  then obtain k where k: "bad k" and least: "\<forall>j<k. \<not> bad j"
    using exists_least_iff[of bad] by auto
  have klen: "k < length lines" and kbad: "invalid_line (lines ! k)"
    using k by (simp_all add: bad_def)
  have before: "\<forall>j<k. \<not> invalid_line (lines ! j)"
    using least klen by (auto simp: bad_def)
  have res: "assemble_lines lines = Inl (what (invalid_instruction k (trimmed (lines ! k))))"
    using assemble_loop_invalid[OF klen kbad before, of 0 "[]"]
    by (simp add: assemble_lines_def)
  have later: "assemble_lines (take (Suc k) lines @ later) = assemble_lines lines" for later
  proof -
    let ?ls = "take (Suc k) lines @ later"
    have same: "?ls ! j = lines ! j" if "j \<le> k" for j
      using that klen by (simp add: nth_append)
    have "k < length ?ls" using klen by simp
    moreover have "invalid_line (?ls ! k)" using kbad same[of k] by simp
    moreover have "\<forall>j<k. \<not> invalid_line (?ls ! j)" using before same by simp
    ultimately have "assemble_loop 0 ?ls [] = Inl (what (invalid_instruction (0 + k) (trimmed (?ls ! k))))"
      by (rule assemble_loop_invalid)
    then show ?thesis using res same[of k] by (simp add: assemble_lines_def)
  qed
  have inj: "\<forall>m. show_nat m = show_nat (k + 1) \<longrightarrow> m = k + 1"
    using show_nat_inj by blast
  have msg: "assemble_lines lines =
               Inl (what (''Linha '' @ show_nat (k + 1) @ '': instrucao invalida: ''
                          @ [CHR 0x27] @ trimmed (lines ! k) @ [CHR 0x27]))"
    using res by (simp add: invalid_instruction_def)
  have full: "assemble_lines lines =
                  Inl (''Linha '' @ show_nat (k + 1) @ '': instrucao invalida: ''
                       @ [CHR 0x27] @ trimmed (lines ! k) @ [CHR 0x27])"
    if "CHR 0x00 \<notin> set (trimmed (lines ! k))"
    using res that by (simp only: what_invalid_instruction) simp
  from klen kbad before msg full inj later show ?thesis by blast
qed

text \<open>
  Claim C7.  When some line is invalid (its trimmed text is non-empty, does not start
  with \<open>#\<close> and is not a mnemonic), assembly should fail at the first such line with an
  error that identifies the line's position counted from 1 and the offending trimmed
  text.  The code builds such a text at line 48 but hands it over as the message of a
  \<^verbatim>\<open>std::runtime_error\<close>, which ends at the first NUL character.  For the one-line
  program whose line is \<open>READ\<close> followed by a NUL character, the trimmed text keeps the
  NUL and is not a mnemonic, and the error reads \<open>Linha 1: instrucao invalida: 'READ\<close>:
  the text shown is the valid mnemonic and the closing quote is lost.  The lines \<open>A\<close>,
  NUL, \<open>B\<close> and \<open>A\<close>, NUL, \<open>C\<close> have different trimmed texts and give the same error.
\<close>

theorem assemble_error_cut_at_nul:
  "invalid_line (''READ'' @ [CHR 0x00])
   \<and> trimmed (''READ'' @ [CHR 0x00]) = ''READ'' @ [CHR 0x00]
   \<and> assemble_lines [''READ'' @ [CHR 0x00]]
       = Inl (''Linha 1: instrucao invalida: '' @ [CHR 0x27] @ ''READ'')
   \<and> assemble_lines [''READ'' @ [CHR 0x00]]
       \<noteq> Inl (''Linha 1: instrucao invalida: '' @ [CHR 0x27] @ trimmed (''READ'' @ [CHR 0x00])
              @ [CHR 0x27])
   \<and> trimmed (''A'' @ [CHR 0x00] @ ''B'') \<noteq> trimmed (''A'' @ [CHR 0x00] @ ''C'')
   \<and> assemble_lines [''A'' @ [CHR 0x00] @ ''B''] = assemble_lines [''A'' @ [CHR 0x00] @ ''C'']"
proof -
  have 1: "invalid_line (''READ'' @ [CHR 0x00])" by code_simp
  have 2: "trimmed (''READ'' @ [CHR 0x00]) = ''READ'' @ [CHR 0x00]" by code_simp
  have 3: "assemble_lines [''READ'' @ [CHR 0x00]]
       = Inl (''Linha 1: instrucao invalida: '' @ [CHR 0x27] @ ''READ'')"
    by code_simp
  have 4: "trimmed (''A'' @ [CHR 0x00] @ ''B'') \<noteq> trimmed (''A'' @ [CHR 0x00] @ ''C'')"
    by code_simp
  have 5: "assemble_lines [''A'' @ [CHR 0x00] @ ''B''] = assemble_lines [''A'' @ [CHR 0x00] @ ''C'']"
    by code_simp
  from 1 2 3 4 5 show ?thesis by simp
qed

lemma assemble_loop_filter:
  "(case assemble_loop i lines code of
      Inr c \<Rightarrow> assemble_loop j (filter (\<lambda>raw. \<not> ignorable raw) lines) code = Inr c
    | Inl e \<Rightarrow>
        \<exists>k t. k < length lines \<and> e = what (invalid_instruction (i + k) t)
          \<and> assemble_loop j (filter (\<lambda>raw. \<not> ignorable raw) lines) code
              = Inl (what (invalid_instruction
                      (j + length (filter (\<lambda>raw. \<not> ignorable raw) (take k lines))) t)))"
proof (induction lines arbitrary: i j code)
  case Nil
  then show ?case by simp
next
  case (Cons raw rest)
  let ?keep = "\<lambda>raw. \<not> ignorable raw"
  show ?case
  proof (cases "ignorable raw")
    case True
    have step: "assemble_loop i (raw # rest) code = assemble_loop (Suc i) rest code"
      using True by (simp add: assemble_loop_Cons del: assemble_loop.simps)
    have filt: "filter ?keep (raw # rest) = filter ?keep rest"
      using True by simp
    show ?thesis
    proof (cases "assemble_loop (Suc i) rest code")
      case (Inr c)
      with Cons.IH[of "Suc i" j code] show ?thesis
        unfolding step filt by simp
    next
      case (Inl e)
      with Cons.IH[of "Suc i" j code]
      obtain k t where k: "k < length rest" "e = what (invalid_instruction (Suc i + k) t)"
        "assemble_loop j (filter ?keep rest) code
          = Inl (what (invalid_instruction (j + length (filter ?keep (take k rest))) t))"
        by auto
      have "Suc k < length (raw # rest)" using k(1) by simp
      moreover have "e = what (invalid_instruction (i + Suc k) t)" using k(2) by simp
      moreover have "assemble_loop j (filter ?keep rest) code
          = Inl (what (invalid_instruction (j + length (filter ?keep (take (Suc k) (raw # rest)))) t))"
        using k(3) True by simp
      ultimately show ?thesis
        unfolding step filt Inl by (simp only: sum.case) blast
    qed
  next
    case False
    show ?thesis
    proof (cases "MNEM (trimmed raw)")
      case None
      have "assemble_loop i (raw # rest) code = Inl (what (invalid_instruction (i + 0) (trimmed raw)))"
        using False None by (simp add: assemble_loop_Cons del: assemble_loop.simps)
      moreover have "assemble_loop j (filter ?keep (raw # rest)) code
          = Inl (what (invalid_instruction (j + length (filter ?keep (take 0 (raw # rest)))) (trimmed raw)))"
        using False None by (simp add: assemble_loop_Cons del: assemble_loop.simps)
      moreover have "0 < length (raw # rest)" by simp
      ultimately show ?thesis
        by (simp only: sum.case) blast
    next
      case (Some opc)
      have step: "assemble_loop i (raw # rest) code = assemble_loop (Suc i) rest (code @ [opc])"
        using False Some by (simp add: assemble_loop_Cons del: assemble_loop.simps)
      have step': "assemble_loop j (filter ?keep (raw # rest)) code
          = assemble_loop (Suc j) (filter ?keep rest) (code @ [opc])"
        using False Some by (simp add: assemble_loop_Cons del: assemble_loop.simps)
      show ?thesis
      proof (cases "assemble_loop (Suc i) rest (code @ [opc])")
        case (Inr c)
        with Cons.IH[of "Suc i" "Suc j" "code @ [opc]"] show ?thesis
          unfolding step step' by simp
      next
        case (Inl e)
        with Cons.IH[of "Suc i" "Suc j" "code @ [opc]"]
        obtain k t where k: "k < length rest" "e = what (invalid_instruction (Suc i + k) t)"
          "assemble_loop (Suc j) (filter ?keep rest) (code @ [opc])
            = Inl (what (invalid_instruction (Suc j + length (filter ?keep (take k rest))) t))"
          by auto
        have "Suc k < length (raw # rest)" using k(1) by simp
        moreover have "e = what (invalid_instruction (i + Suc k) t)" using k(2) by simp
        moreover have "assemble_loop (Suc j) (filter ?keep rest) (code @ [opc])
            = Inl (what (invalid_instruction (j + length (filter ?keep (take (Suc k) (raw # rest)))) t))"
          using k(3) False by simp
        ultimately show ?thesis
          unfolding step step' Inl by (simp only: sum.case) blast
      qed
    qed
  qed
qed

text \<open>
  Claim C8.  A line that is blank after trimming, or whose first non-whitespace character
  is \<open>#\<close>, makes the loop go on with the next line and the same bytes.  Deleting all such
  lines changes neither the bytes of a successful assembly nor whether assembly fails; on
  failure the two messages report the same offending text and differ only in the line
  number, which counts the skipped lines in one case and not in the other.
\<close>

theorem assemble_skips_blank_and_comment_lines:
  "(ignorable raw \<longrightarrow> assemble_loop i (raw # rest) code = assemble_loop (i + 1) rest code)
   \<and> (assemble_lines lines = Inr bytes \<longleftrightarrow>
        assemble_lines (filter (\<lambda>raw. \<not> ignorable raw) lines) = Inr bytes)
   \<and> (isl (assemble_lines lines) \<longleftrightarrow>
        isl (assemble_lines (filter (\<lambda>raw. \<not> ignorable raw) lines)))
   \<and> (assemble_lines lines = Inl e \<longrightarrow>
        (\<exists>k t. k < length lines \<and> e = what (invalid_instruction k t)
           \<and> assemble_lines (filter (\<lambda>raw. \<not> ignorable raw) lines)
               = Inl (what (invalid_instruction
                        (length (filter (\<lambda>raw. \<not> ignorable raw) (take k lines))) t))))"
proof -
  let ?keep = "\<lambda>raw. \<not> ignorable raw"
  note rel = assemble_loop_filter[where i=0 and j=0 and lines=lines and code="[]", folded assemble_lines_def]
  have skip: "ignorable raw \<longrightarrow> assemble_loop i (raw # rest) code = assemble_loop (i + 1) rest code"
    by (simp add: assemble_loop_Cons del: assemble_loop.simps)
  have bad: "\<exists>k t. k < length lines \<and> e = what (invalid_instruction k t)
           \<and> assemble_lines (filter ?keep lines)
               = Inl (what (invalid_instruction (length (filter ?keep (take k lines))) t))"
    if "assemble_lines lines = Inl e" for e
    using rel that by simp
  have good: "assemble_lines (filter ?keep lines) = Inr c" if "assemble_lines lines = Inr c" for c
    using rel that by simp
  have fails: "isl (assemble_lines lines) \<longleftrightarrow> isl (assemble_lines (filter ?keep lines))"
  proof (cases "assemble_lines lines")
    case (Inl e)
    with bad[OF Inl] show ?thesis by auto
  next
    case (Inr c)
    with good[OF Inr] show ?thesis by simp
  qed
  have iff: "assemble_lines lines = Inr bytes \<longleftrightarrow> assemble_lines (filter ?keep lines) = Inr bytes"
  proof
    assume "assemble_lines lines = Inr bytes"
    then show "assemble_lines (filter ?keep lines) = Inr bytes" by (rule good)
  next
    assume r: "assemble_lines (filter ?keep lines) = Inr bytes"
    then have "\<not> isl (assemble_lines lines)" using fails by simp
    then obtain c where c: "assemble_lines lines = Inr c"
      by (cases "assemble_lines lines") auto
    with good[OF c] r show "assemble_lines lines = Inr bytes" by simp
  qed
  from skip iff fails bad show ?thesis by blast
qed

theorem assemble_skips_blank_and_comment_lines_witness:
  "ignorable ''  # load''
   \<and> assemble_loop 0 [''  # load'', ''READ''] [] = assemble_loop 1 [''READ''] []
   \<and> filter (\<lambda>raw. \<not> ignorable raw) [''# add two'', ''READ'', ''   '', ''ADD'', ''#HALT''] = [''READ'', ''ADD'']
   \<and> assemble_lines [''# add two'', ''READ'', ''   '', ''ADD'', ''#HALT''] = Inr [0x01, 0x03]
   \<and> assemble_lines [''READ'', ''ADD''] = Inr [0x01, 0x03]
   \<and> assemble_lines ['''', ''READ'', ''# x'', ''mul'', ''HALT''] = Inl (what (invalid_instruction 3 ''mul''))
   \<and> assemble_lines (filter (\<lambda>raw. \<not> ignorable raw) ['''', ''READ'', ''# x'', ''mul'', ''HALT''])
       = Inl (what (invalid_instruction 1 ''mul''))"
proof -
  let ?a = "[''# add two'', ''READ'', ''   '', ''ADD'', ''#HALT'']"
  let ?b = "['''', ''READ'', ''# x'', ''mul'', ''HALT'']"
  have h1: "ignorable ''  # load''" by code_simp
  have f: "filter (\<lambda>raw. \<not> ignorable raw) ?a = [''READ'', ''ADD'']" by code_simp
  have h2: "assemble_lines [''READ'', ''ADD''] = Inr [0x01, 0x03]" by code_simp
  have h3: "assemble_lines ?b = Inl (what (invalid_instruction 3 ''mul''))" by code_simp
  have g: "assemble_lines (filter (\<lambda>raw. \<not> ignorable raw) ?b) = Inl (what (invalid_instruction 1 ''mul''))"
    by code_simp
  from assemble_skips_blank_and_comment_lines
    [of "''  # load''" 0 "[''READ'']" "[]" ?a "[0x01, 0x03]"] h1 f h2
  have "assemble_loop 0 [''  # load'', ''READ''] [] = assemble_loop 1 [''READ''] []"
    and "assemble_lines ?a = Inr [0x01, 0x03]"
    by simp_all
  with h1 f h2 h3 g show ?thesis by simp
qed

section \<open>Properties of the interpreter\<close>

subsection \<open>Masking with \<open>0xFF\<close>\<close>

lemma and_FF_take_bit: "(x :: 32 word) AND 0xFF = take_bit 8 x"
proof -
  have "(0xFF :: 32 word) = mask 8" by (simp add: mask_eq_exp_minus_1)
  then show ?thesis by (simp add: take_bit_eq_mask)
qed

lemma uint_and_FF: "uint ((x :: 32 word) AND 0xFF) = uint x mod 256"
proof -
  have "uint (take_bit 8 x) = take_bit 8 (uint x)" by (rule unsigned_take_bit_eq)
  then show ?thesis by (simp only: and_FF_take_bit take_bit_eq_mod) simp
qed

lemma sint_small: "uint (w :: 32 word) < 256 \<Longrightarrow> sint w = uint w"
proof -
  assume "uint w < 256"
  moreover have "0 \<le> uint w" by simp
  ultimately have "- 2147483648 \<le> uint w" "uint w < 2147483648" by linarith+
  then have "- (2 ^ 31) \<le> uint w" "uint w < 2 ^ 31" by simp_all
  then have "signed_take_bit 31 (uint w) = uint w" by (rule signed_take_bit_int_eq_self)
  then show ?thesis by (simp add: sint_uint)
qed

lemma sint_and_FF: "sint ((x :: 32 word) AND 0xFF) = uint x mod 256"
proof -
  have "uint (x AND 0xFF) < 256" by (simp add: uint_and_FF)
  then show ?thesis using sint_small[of "x AND 0xFF"] by (simp add: uint_and_FF)
qed

lemma sint_mod_256: "sint (x :: 32 word) mod 256 = uint x mod 256"
proof -
  have "uint x = take_bit 32 (sint x)" using uint_sint[of x] by simp
  then have "uint x mod 256 = (sint x mod 2 ^ 32) mod 256" by (simp add: take_bit_eq_mod)
  also have "\<dots> = sint x mod 256"
    by (rule mod_mod_cancel) simp
  finally show ?thesis by simp
qed

lemma sint_add_and_FF: "sint (((a :: 32 word) + b) AND 0xFF) = (sint a + sint b) mod 256"
proof -
  have "sint ((a + b) AND 0xFF) = uint (a + b) mod 256" by (rule sint_and_FF)
  also have "\<dots> = ((uint a + uint b) mod 2 ^ 32) mod 256" by (simp add: uint_word_ariths)
  also have "\<dots> = (uint a + uint b) mod 256" by (rule mod_mod_cancel) simp
  also have "\<dots> = (uint a mod 256 + uint b mod 256) mod 256" by (simp add: mod_add_eq)
  also have "\<dots> = (sint a mod 256 + sint b mod 256) mod 256" by (simp only: sint_mod_256)
  also have "\<dots> = (sint a + sint b) mod 256" by (simp add: mod_add_eq)
  finally show ?thesis .
qed

lemma of_char_lt: "(of_char c :: nat) < 256"
proof -
  have "(of_char c :: nat) mod 256 = of_char c" by simp
  then show ?thesis by (metis mod_less_divisor zero_less_numeral)
qed

lemma uint_of_char: "uint (of_char c :: 32 word) = of_char c"
proof -
  have "(of_char c :: nat) < 4294967296" using of_char_lt[of c] by linarith
  then have less: "(of_char c :: nat) < 2 ^ 32" by simp
  have "(of_char c :: 32 word) = of_nat (of_char c)" by (simp only: of_nat_of_char)
  then have "unat (of_char c :: 32 word) = unat (of_nat (of_char c) :: 32 word)" by simp
  also have "\<dots> = of_char c mod 2 ^ 32" by (simp add: unat_of_nat)
  also have "\<dots> = of_char c" using less by (rule mod_less)
  finally have "int (unat (of_char c :: 32 word)) = int (of_char c)" by simp
  then show ?thesis by (simp only: of_nat_of_char uint_nat[symmetric])
qed

lemma of_char_and_FF: "(of_char c :: 32 word) AND 0xFF = of_char c"
proof -
  have "uint ((of_char c :: 32 word) AND 0xFF) = uint (of_char c :: 32 word)"
    by (simp add: uint_and_FF uint_of_char)
  then show ?thesis by (simp only: word_uint_eq_iff)
qed

lemma sint_of_char: "sint (of_char c :: 32 word) = of_char c"
  using sint_and_FF[of "of_char c"] by (simp add: of_char_and_FF uint_of_char)

subsection \<open>One pass through the switch\<close>

lemma read_byte_from_stdin_rest: "snd (read_byte_from_stdin stdin) = drop 1 stdin"
  by (cases stdin) simp_all

lemma exec_op_READ:
  "exec_op OP_READ s =
     Break (s\<lparr>stack := stack s @ [fst (read_byte_from_stdin (inp s)) AND 0xFF],
              inp := drop 1 (inp s)\<rparr>)"
  using read_byte_from_stdin_rest[of "inp s"]
  by (simp add: exec_op_def split_beta)

lemma exec_op_PRINT:
  "exec_op OP_PRINT s =
     (if stack s = [] then Return 2 s
      else Break (s\<lparr>stack := butlast (stack s),
                      out := out s @ [ucast (last (stack s) AND 0xFF)]\<rparr>))"
  by (simp add: exec_op_def OP_READ_def OP_PRINT_def)

lemma exec_op_ADD:
  "exec_op OP_ADD s =
     (if length (stack s) < 2 then Return 2 s
      else Break (s\<lparr>stack := butlast (butlast (stack s))
                        @ [(last (stack s) + last (butlast (stack s))) AND 0xFF]\<rparr>))"
  by (simp add: exec_op_def OP_READ_def OP_PRINT_def OP_ADD_def)

lemma exec_op_HALT: "exec_op OP_HALT s = Return 0 s"
  by (simp add: exec_op_def OP_READ_def OP_PRINT_def OP_ADD_def OP_HALT_def)

lemma exec_op_unknown:
  "opc \<notin> {0x01, 0x02, 0x03, 0xFF} \<Longrightarrow> exec_op opc s = Return 3 s"
  by (simp add: exec_op_def OP_READ_def OP_PRINT_def OP_ADD_def OP_HALT_def)

lemma opcode_cases:
  "opc = OP_READ \<or> opc = OP_PRINT \<or> opc = OP_ADD \<or> opc = OP_HALT
     \<or> opc \<notin> {0x01, 0x02, 0x03, 0xFF}"
  by (auto simp: OP_READ_def OP_PRINT_def OP_ADD_def OP_HALT_def)

text \<open>A pass that returns leaves the state as it found it, and says why it returned.\<close>

lemma exec_op_Return:
  "exec_op opc s = Return status s' \<longleftrightarrow>
     s' = s \<and>
     (status = 2 \<and> (opc = OP_PRINT \<and> stack s = [] \<or> opc = OP_ADD \<and> length (stack s) < 2)
      \<or> status = 0 \<and> opc = OP_HALT
      \<or> status = 3 \<and> opc \<notin> {0x01, 0x02, 0x03, 0xFF})"
proof -
  consider (rd) "opc = 0x01" | (pr) "opc = 0x02" | (ad) "opc = 0x03" | (ha) "opc = 0xFF"
    | (un) "opc \<notin> {0x01, 0x02, 0x03, 0xFF}"
    by auto
  then show ?thesis
  proof cases
    case rd
    then show ?thesis
      by (simp add: exec_op_def OP_READ_def OP_PRINT_def OP_ADD_def OP_HALT_def split_beta)
  next
    case pr
    then show ?thesis
      by (auto simp: exec_op_def OP_READ_def OP_PRINT_def OP_ADD_def OP_HALT_def)
  next
    case ad
    then show ?thesis
      by (auto simp: exec_op_def OP_READ_def OP_PRINT_def OP_ADD_def OP_HALT_def)
  next
    case ha
    then show ?thesis
      by (auto simp: exec_op_def OP_READ_def OP_PRINT_def OP_ADD_def OP_HALT_def)
  next
    case un
    then show ?thesis
      by (auto simp: exec_op_def OP_READ_def OP_PRINT_def OP_ADD_def OP_HALT_def)
  qed
qed

lemma masked_in_range: "0 \<le> sint ((x :: 32 word) AND 0xFF) \<and> sint (x AND 0xFF) \<le> 255"
proof -
  have "0 \<le> uint x mod 256" "uint x mod 256 < 256" by simp_all
  then show ?thesis by (simp add: sint_and_FF)
qed

lemma exec_op_in_range:
  assumes "stack_in_range s" and "exec_op opc s = Break s'"
  shows "stack_in_range s'"
proof -
  have bl: "list_all P (butlast xs)" if "list_all P xs" for P and xs :: "32 word list"
    using that by (auto simp: list_all_iff dest: in_set_butlastD)
  have inv: "list_all (\<lambda>v. 0 \<le> sint v \<and> sint v \<le> 255) (stack s)"
    using assms(1) by (simp add: stack_in_range_def)
  consider (rd) "opc = OP_READ" | (pr) "opc = OP_PRINT" | (ad) "opc = OP_ADD"
    | (ha) "opc = OP_HALT" | (un) "opc \<notin> {0x01, 0x02, 0x03, 0xFF}"
    using opcode_cases[of opc] by blast
  then show ?thesis
  proof cases
    case rd
    with assms(2) have "stack s' = stack s @ [fst (read_byte_from_stdin (inp s)) AND 0xFF]"
      by (auto simp: exec_op_READ)
    then show ?thesis using inv masked_in_range by (simp add: stack_in_range_def)
  next
    case pr
    with assms(2) have "stack s' = butlast (stack s)"
      by (auto simp: exec_op_PRINT split: if_splits)
    then show ?thesis using bl[OF inv] by (simp add: stack_in_range_def)
  next
    case ad
    with assms(2) have "stack s' = butlast (butlast (stack s))
        @ [(last (stack s) + last (butlast (stack s))) AND 0xFF]"
      by (auto simp: exec_op_ADD split: if_splits)
    then show ?thesis using bl[OF bl[OF inv]] masked_in_range by (simp add: stack_in_range_def)
  next
    case ha
    with assms(2) show ?thesis by (simp add: exec_op_HALT)
  next
    case un
    with assms(2) show ?thesis by (simp add: exec_op_unknown)
  qed
qed

subsection \<open>The loop\<close>

lemma run_loop_off_end: "length bc \<le> ip s \<Longrightarrow> run_loop bc s = (0, s)"
  by (simp add: run_loop.simps)

lemma run_loop_Return:
  "ip s < length bc \<Longrightarrow> exec_op (bc ! ip s) (s\<lparr>ip := ip s + 1\<rparr>) = Return status s' \<Longrightarrow>
   run_loop bc s = (status, s')"
  by (simp add: run_loop.simps)

lemma run_loop_Break:
  "ip s < length bc \<Longrightarrow> exec_op (bc ! ip s) (s\<lparr>ip := ip s + 1\<rparr>) = Break s' \<Longrightarrow>
   run_loop bc s = run_loop bc s'"
  by (simp add: run_loop.simps)

lemma loop_head_Suc_Some:
  "loop_head (Suc n) bc s0 = Some s \<longleftrightarrow>
     (\<exists>s1. ip s0 < length bc \<and> exec_op (bc ! ip s0) (s0\<lparr>ip := ip s0 + 1\<rparr>) = Break s1
        \<and> loop_head n bc s1 = Some s)"
  by (auto split: flow.splits if_splits)

lemma loop_head_run:
  "loop_head n bc s0 = Some s \<Longrightarrow> run_loop bc s0 = run_loop bc s"
proof (induction n arbitrary: s0)
  case 0
  then show ?case by simp
next
  case (Suc n)
  then obtain s1 where s1: "ip s0 < length bc"
      "exec_op (bc ! ip s0) (s0\<lparr>ip := ip s0 + 1\<rparr>) = Break s1" "loop_head n bc s1 = Some s"
    unfolding loop_head_Suc_Some by blast
  then show ?case using Suc.IH[of s1] run_loop_Break[of s0 bc s1] by simp
qed

lemma loop_head_ip:
  "loop_head n bc s0 = Some s \<Longrightarrow> ip s = ip s0 + n \<and> (ip s0 \<le> length bc \<longrightarrow> ip s \<le> length bc)"
proof (induction n arbitrary: s0)
  case 0
  then show ?case by simp
next
  case (Suc n)
  then obtain s1 where s1: "ip s0 < length bc"
      "exec_op (bc ! ip s0) (s0\<lparr>ip := ip s0 + 1\<rparr>) = Break s1" "loop_head n bc s1 = Some s"
    unfolding loop_head_Suc_Some by blast
  have "ip s1 = ip s0 + 1" using exec_op_ip[OF s1(2)] by simp
  then show ?case using Suc.IH[OF s1(3)] s1(1) by simp
qed

lemma loop_head_append:
  "loop_head n bc s0 = Some s \<Longrightarrow> loop_head n (bc @ ext) s0 = Some s"
proof (induction n arbitrary: s0)
  case 0
  then show ?case by simp
next
  case (Suc n)
  then obtain s1 where s1: "ip s0 < length bc"
      "exec_op (bc ! ip s0) (s0\<lparr>ip := ip s0 + 1\<rparr>) = Break s1" "loop_head n bc s1 = Some s"
    unfolding loop_head_Suc_Some by blast
  then show ?case using Suc.IH[OF s1(3)]
    unfolding loop_head_Suc_Some by (auto simp: nth_append)
qed

lemma loop_head_in_range:
  "stack_in_range s0 \<Longrightarrow> loop_head n bc s0 = Some s \<Longrightarrow> stack_in_range s"
proof (induction n arbitrary: s0)
  case 0
  then show ?case by simp
next
  case (Suc n)
  then obtain s1 where s1: "ip s0 < length bc"
      "exec_op (bc ! ip s0) (s0\<lparr>ip := ip s0 + 1\<rparr>) = Break s1" "loop_head n bc s1 = Some s"
    unfolding loop_head_Suc_Some by blast
  have "stack_in_range (s0\<lparr>ip := ip s0 + 1\<rparr>)"
    using Suc.prems(1) by (simp add: stack_in_range_def)
  then have "stack_in_range s1" using s1(2) by (rule exec_op_in_range)
  then show ?case using s1(3) by (rule Suc.IH)
qed

text \<open>
  Every run has a last loop head: the state in which the loop test fails or the pass
  through the switch returns.  It is reached within \<open>length bc - ip s0\<close> passes.
\<close>

lemma last_loop_head:
  "\<exists>n s. n \<le> length bc - ip s0 \<and> loop_head n bc s0 = Some s \<and>
     (length bc \<le> ip s \<and> run_loop bc s0 = (0, s)
      \<or> ip s < length bc \<and>
         (\<exists>status. exec_op (bc ! ip s) (s\<lparr>ip := ip s + 1\<rparr>) = Return status (s\<lparr>ip := ip s + 1\<rparr>)
            \<and> run_loop bc s0 = (status, s\<lparr>ip := ip s + 1\<rparr>)))"
proof (induction bc s0 rule: run_loop.induct)
  case (1 bc s0)
  show ?case
  proof (cases "ip s0 < length bc")
    case False
    then have "loop_head 0 bc s0 = Some s0" "length bc \<le> ip s0" "run_loop bc s0 = (0, s0)"
      by (simp_all add: run_loop_off_end)
    then show ?thesis by blast
  next
    case True
    show ?thesis
    proof (cases "exec_op (bc ! ip s0) (s0\<lparr>ip := ip s0 + 1\<rparr>)")
      case (Return status s')
      then have s': "s' = s0\<lparr>ip := ip s0 + 1\<rparr>" by (simp add: exec_op_Return)
      have "loop_head 0 bc s0 = Some s0" by simp
      moreover have "run_loop bc s0 = (status, s0\<lparr>ip := ip s0 + 1\<rparr>)"
        using run_loop_Return[OF True Return] s' by simp
      ultimately show ?thesis using True Return s' by blast
    next
      case (Break s1)
      from "1.IH"[OF True Break]
      obtain n s where n: "n \<le> length bc - ip s1" "loop_head n bc s1 = Some s"
        "length bc \<le> ip s \<and> run_loop bc s1 = (0, s)
          \<or> ip s < length bc \<and>
             (\<exists>status. exec_op (bc ! ip s) (s\<lparr>ip := ip s + 1\<rparr>) = Return status (s\<lparr>ip := ip s + 1\<rparr>)
               \<and> run_loop bc s1 = (status, s\<lparr>ip := ip s + 1\<rparr>))"
        by blast
      have "ip s1 = ip s0 + 1" using exec_op_ip[OF Break] by simp
      then have "Suc n \<le> length bc - ip s0" using n(1) True by simp
      moreover have "loop_head (Suc n) bc s0 = Some s"
        using True Break n(2) by simp
      moreover have "run_loop bc s0 = run_loop bc s1"
        using True Break by (rule run_loop_Break)
      ultimately show ?thesis using n(3) by metis
    qed
  qed
qed

lemma run_bounded_enough:
  "length bc - ip s \<le> n \<Longrightarrow> run_bounded n bc s = Some (run_loop bc s)"
proof (induction n arbitrary: s)
  case 0
  then show ?case by (simp add: run_bounded.simps run_loop_off_end)
next
  case (Suc n)
  show ?case
  proof (cases "ip s < length bc")
    case False
    then show ?thesis by (simp add: run_bounded.simps run_loop_off_end)
  next
    case True
    show ?thesis
    proof (cases "exec_op (bc ! ip s) (s\<lparr>ip := ip s + 1\<rparr>)")
      case (Return status s')
      then show ?thesis using True by (simp add: run_bounded.simps run_loop_Return)
    next
      case (Break s1)
      have "ip s1 = ip s + 1" using exec_op_ip[OF Break] by simp
      then have "length bc - ip s1 \<le> n" using Suc.prems by simp
      then have "run_bounded n bc s1 = Some (run_loop bc s1)" by (rule Suc.IH)
      then show ?thesis
        using True Break run_loop_Break[OF True Break] by (simp add: run_bounded.simps)
    qed
  qed
qed

subsection \<open>READ and ADD\<close>

text \<open>
  Claim C3.  A READ at the loop head takes the next input line and pushes one value: 0
  when the input is exhausted or the line is empty, otherwise the value of the line's
  first character as an unsigned byte, which lies between 0 and 255.  The rest of that
  line is dropped with it, so the next READ starts at the next line; the instruction
  pointer moves on by one and the output is untouched.  On exhausted input there is no
  line to take and the input stays exhausted.
\<close>

theorem read_pushes_first_byte_of_line:
  assumes "ip s < length bc" and "bc ! ip s = OP_READ"
  shows "(inp s = [] \<longrightarrow>
            loop_head (Suc 0) bc s = Some (s\<lparr>ip := ip s + 1, stack := stack s @ [0], inp := []\<rparr>))
       \<and> (inp s = [] # rest \<longrightarrow>
            loop_head (Suc 0) bc s = Some (s\<lparr>ip := ip s + 1, stack := stack s @ [0], inp := rest\<rparr>))
       \<and> (inp s = (c # cs) # rest \<longrightarrow>
            loop_head (Suc 0) bc s
              = Some (s\<lparr>ip := ip s + 1, stack := stack s @ [of_char c], inp := rest\<rparr>)
            \<and> sint (of_char c :: 32 word) = of_char c
            \<and> (0 :: int) \<le> of_char c \<and> (of_char c :: int) \<le> 255)"
proof -
  have step: "loop_head (Suc 0) bc s =
      Some (s\<lparr>ip := ip s + 1,
              stack := stack s @ [fst (read_byte_from_stdin (inp s)) AND 0xFF],
              inp := drop 1 (inp s)\<rparr>)"
    using assms by (simp add: exec_op_READ)
  have range: "(0 :: int) \<le> of_char c \<and> (of_char c :: int) \<le> 255"
    using masked_in_range[of "of_char c"] by (simp add: of_char_and_FF sint_of_char)
  show ?thesis
    using range by (auto simp: step of_char_and_FF sint_of_char simp del: loop_head.simps)
qed

theorem read_pushes_first_byte_of_line_witness:
  "loop_head (Suc 0) [0x02, 0x01] \<lparr>ip = 1, stack = [7], inp = [], out = [9]\<rparr>
     = Some \<lparr>ip = 2, stack = [7, 0], inp = [], out = [9]\<rparr>
   \<and> loop_head (Suc 0) [0x02, 0x01] \<lparr>ip = 1, stack = [7], inp = ['''', ''x''], out = [9]\<rparr>
     = Some \<lparr>ip = 2, stack = [7, 0], inp = [''x''], out = [9]\<rparr>
   \<and> loop_head (Suc 0) [0x02, 0x01] \<lparr>ip = 1, stack = [7], inp = [''AB'', ''x''], out = [9]\<rparr>
     = Some \<lparr>ip = 2, stack = [7, 65], inp = [''x''], out = [9]\<rparr>"
proof -
  let ?bc = "[0x02, 0x01] :: byte list"
  have b: "?bc ! 1 = OP_READ" by (simp add: OP_READ_def)
  have v: "(of_char CHR ''A'' :: 32 word) = 65" by simp
  note t = read_pushes_first_byte_of_line
  from t[where s="\<lparr>ip = 1, stack = [7], inp = [], out = [9]\<rparr>" and bc="?bc"] b
  have 1: "loop_head (Suc 0) ?bc \<lparr>ip = 1, stack = [7], inp = [], out = [9]\<rparr>
     = Some \<lparr>ip = 2, stack = [7, 0], inp = [], out = [9]\<rparr>"
    by (simp del: loop_head.simps)
  from t[where s="\<lparr>ip = 1, stack = [7], inp = ['''', ''x''], out = [9]\<rparr>" and bc="?bc"
      and rest="[''x'']"] b
  have 2: "loop_head (Suc 0) ?bc \<lparr>ip = 1, stack = [7], inp = ['''', ''x''], out = [9]\<rparr>
     = Some \<lparr>ip = 2, stack = [7, 0], inp = [''x''], out = [9]\<rparr>"
    by (simp del: loop_head.simps)
  from t[where s="\<lparr>ip = 1, stack = [7], inp = [''AB'', ''x''], out = [9]\<rparr>" and bc="?bc"
      and c="CHR ''A''" and cs="''B''" and rest="[''x'']"] b
  have 3: "loop_head (Suc 0) ?bc \<lparr>ip = 1, stack = [7], inp = [''AB'', ''x''], out = [9]\<rparr>
     = Some \<lparr>ip = 2, stack = [7, 65], inp = [''x''], out = [9]\<rparr>"
    by (simp del: loop_head.simps)
  from 1 2 3 show ?thesis by (simp del: loop_head.simps)
qed

text \<open>
  Claim C4.  An ADD at the loop head with at least two values on the stack replaces the
  two topmost values by one: their sum modulo 256.  With 200 and 100 on top the value
  pushed is 44.
\<close>

theorem add_pushes_sum_mod_256:
  assumes "ip s < length bc" and "bc ! ip s = OP_ADD" and "stack s = below @ [b, a]"
  shows "loop_head (Suc 0) bc s = Some (s\<lparr>ip := ip s + 1, stack := below @ [(a + b) AND 0xFF]\<rparr>)
       \<and> sint ((a + b) AND 0xFF) = (sint a + sint b) mod 256
       \<and> (sint a = 100 \<and> sint b = 200 \<longrightarrow> sint ((a + b) AND 0xFF) = 44)"
proof -
  have "butlast (butlast (stack s)) = below" "last (stack s) = a" "last (butlast (stack s)) = b"
    using assms(3) by (simp_all add: butlast_append)
  then have "loop_head (Suc 0) bc s = Some (s\<lparr>ip := ip s + 1, stack := below @ [(a + b) AND 0xFF]\<rparr>)"
    using assms by (simp add: exec_op_ADD)
  then show ?thesis by (simp add: sint_add_and_FF del: loop_head.simps)
qed

theorem add_pushes_sum_mod_256_witness:
  "loop_head (Suc 0) [0x03] \<lparr>ip = 0, stack = [5, 200, 100], inp = [''q''], out = []\<rparr>
     = Some \<lparr>ip = 1, stack = [5, 44], inp = [''q''], out = []\<rparr>
   \<and> sint (44 :: 32 word) = (sint (100 :: 32 word) + sint (200 :: 32 word)) mod 256"
proof -
  have b: "[0x03 :: byte] ! 0 = OP_ADD" by (simp add: OP_ADD_def)
  have v: "((100 :: 32 word) + 200) AND 0xFF = 44" by simp
  from add_pushes_sum_mod_256
    [where s="\<lparr>ip = 0, stack = [5, 200, 100], inp = [''q''], out = []\<rparr>" and bc="[0x03]"
       and below="[5]" and b=200 and a=100] b
  show ?thesis unfolding v by (simp del: loop_head.simps)
qed

subsection \<open>Whole runs\<close>

lemma fetch_at_Some:
  "fetch_at n bc stdin = Some (opc, s) \<longleftrightarrow>
     loop_head n bc (initial_state stdin) = Some s \<and> ip s < length bc \<and> bc ! ip s = opc"
  by (auto simp: fetch_at_def split: option.splits)

lemma off_end_at_iff:
  "off_end_at n bc stdin \<longleftrightarrow>
     (\<exists>s. loop_head n bc (initial_state stdin) = Some s \<and> length bc \<le> ip s)"
  by (auto simp: off_end_at_def split: option.splits)

text \<open>What a run returns when a given opcode is fetched in a given state.\<close>

lemma fetch_at_run:
  assumes "fetch_at n bc stdin = Some (opc, s)"
  shows "run_bytecode bc stdin =
           (case exec_op opc (s\<lparr>ip := ip s + 1\<rparr>) of
              Break s' \<Rightarrow> run_loop bc s'
            | Return status s' \<Rightarrow> (status, s'))"
proof -
  from assms have h: "loop_head n bc (initial_state stdin) = Some s" "ip s < length bc"
      "bc ! ip s = opc"
    by (simp_all add: fetch_at_Some)
  have "run_bytecode bc stdin = run_loop bc s"
    using loop_head_run[OF h(1)] by (simp add: run_bytecode_def)
  then show ?thesis using h(2,3) by (simp add: run_loop.simps[of bc s])
qed

lemma off_end_at_run:
  assumes "loop_head n bc (initial_state stdin) = Some s" and "length bc \<le> ip s"
  shows "run_bytecode bc stdin = (0, s)"
  using loop_head_run[OF assms(1)] assms(2) by (simp add: run_bytecode_def run_loop_off_end)

text \<open>The three ways a run ends, and the status of each.\<close>

lemma run_bytecode_ends:
  obtains (finished) n where "off_end_at n bc stdin \<or> (\<exists>s. fetch_at n bc stdin = Some (OP_HALT, s))"
      and "fst (run_bytecode bc stdin) = 0"
  | (underflow) n s where
      "fetch_at n bc stdin = Some (OP_PRINT, s) \<and> stack s = []
        \<or> fetch_at n bc stdin = Some (OP_ADD, s) \<and> length (stack s) < 2"
      and "fst (run_bytecode bc stdin) = 2"
  | (unknown) n opc s where "fetch_at n bc stdin = Some (opc, s)"
      and "opc \<notin> {0x01, 0x02, 0x03, 0xFF}" and "fst (run_bytecode bc stdin) = 3"
proof -
  from last_loop_head[of bc "initial_state stdin"]
  obtain n s where h: "loop_head n bc (initial_state stdin) = Some s"
    and e: "length bc \<le> ip s \<and> run_loop bc (initial_state stdin) = (0, s)
      \<or> ip s < length bc \<and>
         (\<exists>status. exec_op (bc ! ip s) (s\<lparr>ip := ip s + 1\<rparr>) = Return status (s\<lparr>ip := ip s + 1\<rparr>)
            \<and> run_loop bc (initial_state stdin) = (status, s\<lparr>ip := ip s + 1\<rparr>))"
    by blast
  from e show thesis
  proof
    assume "length bc \<le> ip s \<and> run_loop bc (initial_state stdin) = (0, s)"
    then have "off_end_at n bc stdin" "fst (run_bytecode bc stdin) = 0"
      using h by (auto simp: off_end_at_iff run_bytecode_def)
    then show thesis using finished by blast
  next
    assume a: "ip s < length bc \<and>
         (\<exists>status. exec_op (bc ! ip s) (s\<lparr>ip := ip s + 1\<rparr>) = Return status (s\<lparr>ip := ip s + 1\<rparr>)
            \<and> run_loop bc (initial_state stdin) = (status, s\<lparr>ip := ip s + 1\<rparr>))"
    then obtain status where
      r: "exec_op (bc ! ip s) (s\<lparr>ip := ip s + 1\<rparr>) = Return status (s\<lparr>ip := ip s + 1\<rparr>)"
      and st: "fst (run_bytecode bc stdin) = status"
      by (auto simp: run_bytecode_def)
    have f: "fetch_at n bc stdin = Some (bc ! ip s, s)"
      using h a by (simp add: fetch_at_Some)
    from r have "status = 2 \<and> (bc ! ip s = OP_PRINT \<and> stack s = []
          \<or> bc ! ip s = OP_ADD \<and> length (stack s) < 2)
        \<or> status = 0 \<and> bc ! ip s = OP_HALT
        \<or> status = 3 \<and> bc ! ip s \<notin> {0x01, 0x02, 0x03, 0xFF}"
      by (simp add: exec_op_Return)
    then consider
      (u) "status = 2" "bc ! ip s = OP_PRINT \<and> stack s = [] \<or> bc ! ip s = OP_ADD \<and> length (stack s) < 2"
      | (h) "status = 0" "bc ! ip s = OP_HALT"
      | (k) "status = 3" "bc ! ip s \<notin> {0x01, 0x02, 0x03, 0xFF}"
      by blast
    then show thesis
    proof cases
      case u
      then have "fetch_at n bc stdin = Some (OP_PRINT, s) \<and> stack s = []
        \<or> fetch_at n bc stdin = Some (OP_ADD, s) \<and> length (stack s) < 2"
        using f by auto
      then show thesis using underflow st u(1) by blast
    next
      case h
      then have "\<exists>s. fetch_at n bc stdin = Some (OP_HALT, s)" using f by auto
      then show thesis using finished st h(1) by blast
    next
      case k
      then show thesis using unknown[OF f] st by blast
    qed
  qed
qed

lemma status_done:
  "off_end_at n bc stdin \<or> (\<exists>s. fetch_at n bc stdin = Some (OP_HALT, s)) \<Longrightarrow>
   fst (run_bytecode bc stdin) = 0"
  by (auto simp: off_end_at_iff off_end_at_run fetch_at_run exec_op_HALT)

lemma status_underflow:
  "fetch_at n bc stdin = Some (OP_PRINT, s) \<and> stack s = []
     \<or> fetch_at n bc stdin = Some (OP_ADD, s) \<and> length (stack s) < 2 \<Longrightarrow>
   fst (run_bytecode bc stdin) = 2"
  by (auto simp: fetch_at_run exec_op_PRINT exec_op_ADD)

lemma status_unknown:
  "fetch_at n bc stdin = Some (opc, s) \<Longrightarrow> opc \<notin> {0x01, 0x02, 0x03, 0xFF} \<Longrightarrow>
   fst (run_bytecode bc stdin) = 3"
  by (simp add: fetch_at_run exec_op_unknown)

text \<open>
  Claim C2.  Every run returns one of the statuses 0, 2 and 3.  It returns 0 exactly
  when it completes normally (the loop test fails with the instruction pointer past the
  end, or a HALT is fetched), 2 exactly when a PRINT is fetched with the stack empty or an
  ADD with fewer than two values on it, and 3 exactly when a byte other than 0x01, 0x02,
  0x03 and 0xFF is fetched.  Since the three numbers differ, no two of these conditions
  occur in the same run or share a status.
\<close>

theorem run_bytecode_status:
  "fst (run_bytecode bc stdin) \<in> {0, 2, 3}
   \<and> (fst (run_bytecode bc stdin) = 0 \<longleftrightarrow>
        (\<exists>n. off_end_at n bc stdin \<or> (\<exists>s. fetch_at n bc stdin = Some (OP_HALT, s))))
   \<and> (fst (run_bytecode bc stdin) = 2 \<longleftrightarrow>
        (\<exists>n s. fetch_at n bc stdin = Some (OP_PRINT, s) \<and> stack s = []
              \<or> fetch_at n bc stdin = Some (OP_ADD, s) \<and> length (stack s) < 2))
   \<and> (fst (run_bytecode bc stdin) = 3 \<longleftrightarrow>
        (\<exists>n opc s. fetch_at n bc stdin = Some (opc, s) \<and> opc \<notin> {0x01, 0x02, 0x03, 0xFF}))"
proof -
  have in3: "fst (run_bytecode bc stdin) \<in> {0, 2, 3}"
    by (rule run_bytecode_ends[of bc stdin]) simp_all
  have c0: "\<exists>n. off_end_at n bc stdin \<or> (\<exists>s. fetch_at n bc stdin = Some (OP_HALT, s))"
    if "fst (run_bytecode bc stdin) = 0"
    using that by (rule_tac run_bytecode_ends[of bc stdin]) auto
  have c2: "\<exists>n s. fetch_at n bc stdin = Some (OP_PRINT, s) \<and> stack s = []
              \<or> fetch_at n bc stdin = Some (OP_ADD, s) \<and> length (stack s) < 2"
    if "fst (run_bytecode bc stdin) = 2"
    using that by (rule_tac run_bytecode_ends[of bc stdin]) auto
  have c3: "\<exists>n opc s. fetch_at n bc stdin = Some (opc, s) \<and> opc \<notin> {0x01, 0x02, 0x03, 0xFF}"
    if "fst (run_bytecode bc stdin) = 3"
    using that by (rule_tac run_bytecode_ends[of bc stdin]) auto
  from in3 c0 c2 c3 status_done[of _ bc stdin] status_underflow[of _ bc stdin]
    status_unknown[of _ bc stdin]
  show ?thesis by blast
qed

theorem run_bytecode_status_witness:
  "fst (run_bytecode [0x01, 0x02, 0x03] [''a'']) = 2
   \<and> (\<exists>n s. fetch_at n [0x01, 0x02, 0x03] [''a''] = Some (OP_PRINT, s) \<and> stack s = []
           \<or> fetch_at n [0x01, 0x02, 0x03] [''a''] = Some (OP_ADD, s) \<and> length (stack s) < 2)
   \<and> fst (run_bytecode [0x01, 0x99, 0xFF] []) = 3
   \<and> fst (run_bytecode [0x01, 0xFF, 0x99] []) = 0
   \<and> fst (run_bytecode [0x01, 0x01, 0x03] []) = 0"
proof -
  have s2: "fst (run_bytecode [0x01, 0x02, 0x03] [''a'']) = 2" by code_simp
  have f3: "fetch_at 1 [0x01, 0x99, 0xFF] [] = Some (0x99, \<lparr>ip = 1, stack = [0], inp = [], out = []\<rparr>)"
    by code_simp
  have f0: "fetch_at 1 [0x01, 0xFF, 0x99] [] = Some (OP_HALT, \<lparr>ip = 1, stack = [0], inp = [], out = []\<rparr>)"
    by code_simp
  have e0: "off_end_at 3 [0x01, 0x01, 0x03] []" by code_simp
  note t = run_bytecode_status
  from t[of "[0x01, 0x02, 0x03]" "[''a'']"] s2
  have 1: "\<exists>n s. fetch_at n [0x01, 0x02, 0x03] [''a''] = Some (OP_PRINT, s) \<and> stack s = []
           \<or> fetch_at n [0x01, 0x02, 0x03] [''a''] = Some (OP_ADD, s) \<and> length (stack s) < 2"
    by simp
  have "(0x99 :: byte) \<notin> {0x01, 0x02, 0x03, 0xFF}" by simp
  with t[of "[0x01, 0x99, 0xFF]" "[]"] f3
  have 2: "fst (run_bytecode [0x01, 0x99, 0xFF] []) = 3" by blast
  from t[of "[0x01, 0xFF, 0x99]" "[]"] f0
  have 3: "fst (run_bytecode [0x01, 0xFF, 0x99] []) = 0" by blast
  from t[of "[0x01, 0x01, 0x03]" "[]"] e0
  have 4: "fst (run_bytecode [0x01, 0x01, 0x03] []) = 0" by blast
  from s2 1 2 3 4 show ?thesis by blast
qed

text \<open>
  Claim C5.  A run in which the loop test fails, that is, whose passes through the loop
  all came back without returning until the instruction pointer left the bytecode,
  returns status 0 with the state it has reached.  The empty bytecode returns 0 at once:
  the state returned is the initial one, with no output written and the whole input
  still unread.
\<close>

theorem run_off_end_is_success:
  "(loop_head n bc (initial_state stdin) = Some s \<and> length bc \<le> ip s \<longrightarrow>
      run_bytecode bc stdin = (0, s))
   \<and> run_bytecode [] stdin = (0, \<lparr>ip = 0, stack = [], inp = stdin, out = []\<rparr>)"
proof (intro conjI impI)
  assume "loop_head n bc (initial_state stdin) = Some s \<and> length bc \<le> ip s"
  then show "run_bytecode bc stdin = (0, s)"
    using off_end_at_run[of n bc stdin s] by simp
next
  show "run_bytecode [] stdin = (0, \<lparr>ip = 0, stack = [], inp = stdin, out = []\<rparr>)"
    by (simp add: run_bytecode_def initial_state_def run_loop_off_end)
qed

theorem run_off_end_is_success_witness:
  "loop_head 2 [0x01, 0x02] (initial_state [''A'', ''B''])
     = Some \<lparr>ip = 2, stack = [], inp = [''B''], out = [0x41]\<rparr>
   \<and> run_bytecode [0x01, 0x02] [''A'', ''B'']
     = (0, \<lparr>ip = 2, stack = [], inp = [''B''], out = [0x41]\<rparr>)"
proof -
  have h: "loop_head 2 [0x01, 0x02] (initial_state [''A'', ''B''])
     = Some \<lparr>ip = 2, stack = [], inp = [''B''], out = [0x41]\<rparr>"
    by code_simp
  from run_off_end_is_success
    [of 2 "[0x01, 0x02]" "[''A'', ''B'']" "\<lparr>ip = 2, stack = [], inp = [''B''], out = [0x41]\<rparr>"] h
  show ?thesis by simp
qed

text \<open>
  Claim C6.  When the run of \<open>p @ [0xFF]\<close> gets as far as fetching the \<open>0xFF\<close>, it
  returns status 0 there, and so does the run of \<open>p @ [0xFF] @ rest\<close> for any bytes
  \<open>rest\<close>: the two runs return the same status 0 and the same state, hence the same
  output and the same remaining input.  The bytes after the HALT are never looked at.
\<close>

theorem halt_stops_immediately:
  assumes "loop_head (length p) (p @ [OP_HALT]) (initial_state stdin) = Some s"
  shows "run_bytecode (p @ [OP_HALT]) stdin = (0, s\<lparr>ip := length p + 1\<rparr>)
       \<and> run_bytecode (p @ [OP_HALT] @ rest) stdin = (0, s\<lparr>ip := length p + 1\<rparr>)"
proof -
  have ip: "ip s = length p"
    using loop_head_ip[OF assms] by (simp add: initial_state_def)
  have stop: "run_loop (p @ [OP_HALT] @ ext) s = (0, s\<lparr>ip := length p + 1\<rparr>)" for ext
    using ip by (simp add: run_loop.simps[of _ s] exec_op_HALT nth_append)
  have "loop_head (length p) ((p @ [OP_HALT]) @ rest) (initial_state stdin) = Some s"
    using assms by (rule loop_head_append)
  then have "run_bytecode (p @ [OP_HALT] @ rest) stdin = run_loop (p @ [OP_HALT] @ rest) s"
    using loop_head_run[of "length p" "p @ [OP_HALT] @ rest" "initial_state stdin" s]
    by (simp add: run_bytecode_def)
  moreover have "run_bytecode (p @ [OP_HALT]) stdin = run_loop (p @ [OP_HALT] @ []) s"
    using loop_head_run[OF assms] by (simp add: run_bytecode_def)
  ultimately show ?thesis by (simp only: stop)
qed

theorem halt_stops_immediately_witness:
  "run_bytecode ([0x01, 0x02] @ [OP_HALT]) [''A'', ''B'']
     = (0, \<lparr>ip = 3, stack = [], inp = [''B''], out = [0x41]\<rparr>)
   \<and> run_bytecode ([0x01, 0x02] @ [OP_HALT] @ [0x02, 0x99, 0x01]) [''A'', ''B'']
     = (0, \<lparr>ip = 3, stack = [], inp = [''B''], out = [0x41]\<rparr>)"
proof -
  have h: "loop_head (length [0x01, 0x02 :: byte]) ([0x01, 0x02] @ [OP_HALT])
      (initial_state [''A'', ''B''])
     = Some \<lparr>ip = 2, stack = [], inp = [''B''], out = [0x41]\<rparr>"
    by code_simp
  from halt_stops_immediately[OF h, of "[0x02, 0x99, 0x01]"]
  show ?thesis by simp
qed

text \<open>
  Claim C9.  READ and ADD push a value masked with \<open>0xFF\<close>, which lies between 0 and
  255, and PRINT only pops; so a pass through the loop that comes back keeps every stack
  value between 0 and 255 if they were so before.  Starting from the empty stack, the
  stack is in that range at every loop head of every run and in the state the run returns.
\<close>

theorem stack_values_are_bytes:
  "(stack_in_range s \<and> exec_op opc s = Break s' \<longrightarrow> stack_in_range s')
   \<and> (exec_op OP_READ s = Break s' \<longrightarrow>
        0 \<le> sint (last (stack s')) \<and> sint (last (stack s')) \<le> 255)
   \<and> (exec_op OP_ADD s = Break s' \<longrightarrow>
        0 \<le> sint (last (stack s')) \<and> sint (last (stack s')) \<le> 255)
   \<and> (loop_head n bc (initial_state stdin) = Some t \<longrightarrow>
        (\<forall>v\<in>set (stack t). 0 \<le> sint v \<and> sint v \<le> 255))
   \<and> (\<forall>v\<in>set (stack (snd (run_bytecode bc stdin))). 0 \<le> sint v \<and> sint v \<le> 255)"
proof -
  have init: "stack_in_range (initial_state stdin)"
    by (simp add: stack_in_range_def initial_state_def)
  have step: "stack_in_range s'" if "stack_in_range s \<and> exec_op opc s = Break s'"
    using that exec_op_in_range[of s opc s'] by simp
  have rd: "0 \<le> sint (last (stack s')) \<and> sint (last (stack s')) \<le> 255"
    if "exec_op OP_READ s = Break s'"
  proof -
    from that have "last (stack s') = fst (read_byte_from_stdin (inp s)) AND 0xFF"
      by (auto simp: exec_op_READ)
    then show ?thesis using masked_in_range by simp
  qed
  have ad: "0 \<le> sint (last (stack s')) \<and> sint (last (stack s')) \<le> 255"
    if "exec_op OP_ADD s = Break s'"
  proof -
    from that have "last (stack s') = (last (stack s) + last (butlast (stack s))) AND 0xFF"
      by (auto simp: exec_op_ADD split: if_splits)
    then show ?thesis using masked_in_range by simp
  qed
  have heads: "\<forall>v\<in>set (stack t). 0 \<le> sint v \<and> sint v \<le> 255"
    if "loop_head n bc (initial_state stdin) = Some t"
  proof -
    from init that have "stack_in_range t" by (rule loop_head_in_range)
    then show ?thesis by (simp add: stack_in_range_def list_all_iff)
  qed
  have final: "\<forall>v\<in>set (stack (snd (run_bytecode bc stdin))). 0 \<le> sint v \<and> sint v \<le> 255"
  proof -
    from last_loop_head[of bc "initial_state stdin"]
    obtain m u where u: "loop_head m bc (initial_state stdin) = Some u"
      and r: "run_loop bc (initial_state stdin) = (0, u)
        \<or> (\<exists>status. run_loop bc (initial_state stdin) = (status, u\<lparr>ip := ip u + 1\<rparr>))"
      by blast
    have "stack_in_range u" using init u by (rule loop_head_in_range)
    moreover have "stack (snd (run_bytecode bc stdin)) = stack u"
      using r by (auto simp: run_bytecode_def)
    ultimately show ?thesis by (simp add: stack_in_range_def list_all_iff)
  qed
  from step rd ad heads final show ?thesis by blast
qed

theorem stack_values_are_bytes_witness:
  "exec_op OP_ADD \<lparr>ip = 3, stack = [250, 250], inp = [], out = []\<rparr>
     = Break \<lparr>ip = 3, stack = [244], inp = [], out = []\<rparr>
   \<and> stack_in_range \<lparr>ip = 3, stack = [250, 250], inp = [], out = []\<rparr>
   \<and> stack_in_range \<lparr>ip = 3, stack = [244], inp = [], out = []\<rparr>
   \<and> loop_head 2 [0x01, 0x01, 0x03] (initial_state [[CHR 0xFA], [CHR 0xFA]])
       = Some \<lparr>ip = 2, stack = [250, 250], inp = [], out = []\<rparr>
   \<and> list_all (\<lambda>v. 0 \<le> sint v \<and> sint v \<le> 255) [250, 250 :: 32 word]
   \<and> list_all (\<lambda>v. 0 \<le> sint v \<and> sint v \<le> 255)
        (stack (snd (run_bytecode [0x01, 0x01, 0x03] [[CHR 0xFA], [CHR 0xFA]])))"
proof -
  let ?s = "\<lparr>ip = 3, stack = [250, 250], inp = [], out = []\<rparr>"
  let ?s' = "\<lparr>ip = 3, stack = [244], inp = [], out = []\<rparr>"
  let ?bc = "[0x01, 0x01, 0x03] :: byte list"
  let ?in = "[[CHR 0xFA], [CHR 0xFA]]"
  have e: "exec_op OP_ADD ?s = Break ?s'" by code_simp
  have i: "stack_in_range ?s" by code_simp
  have l: "loop_head 2 ?bc (initial_state ?in)
       = Some \<lparr>ip = 2, stack = [250, 250], inp = [], out = []\<rparr>"
    by code_simp
  note t = stack_values_are_bytes
    [of ?s OP_ADD ?s' 2 ?bc ?in "\<lparr>ip = 2, stack = [250, 250], inp = [], out = []\<rparr>"]
  from t e i have 1: "stack_in_range ?s'" by blast
  from t l have 2: "list_all (\<lambda>v. 0 \<le> sint v \<and> sint v \<le> 255) [250, 250 :: 32 word]"
    by (simp add: list_all_iff)
  from t have 3: "list_all (\<lambda>v. 0 \<le> sint v \<and> sint v \<le> 255)
        (stack (snd (run_bytecode ?bc ?in)))"
    by (simp add: list_all_iff)
  from e i l 1 2 3 show ?thesis by simp
qed

text \<open>
  Claim C10.  The interpreter returns on every bytecode and every input, after at most
  \<open>length bc\<close> passes through the loop: the loop bounded to that many passes already
  returns, and returns what \<^const>\<open>run_bytecode\<close> returns.  A pass that comes back has
  moved the instruction pointer forward by exactly one, so at the loop head of pass \<open>n\<close>
  it equals \<open>n\<close> and does not exceed the length of the bytecode.
\<close>

theorem run_bytecode_terminates:
  "run_bounded (length bc) bc (initial_state stdin) = Some (run_bytecode bc stdin)
   \<and> (exec_op opc (s\<lparr>ip := ip s + 1\<rparr>) = Break s' \<longrightarrow> ip s' = ip s + 1)
   \<and> (loop_head n bc (initial_state stdin) = Some t \<longrightarrow> ip t = n \<and> n \<le> length bc)"
proof (intro conjI impI)
  show "run_bounded (length bc) bc (initial_state stdin) = Some (run_bytecode bc stdin)"
    by (simp add: run_bounded_enough run_bytecode_def)
next
  assume "exec_op opc (s\<lparr>ip := ip s + 1\<rparr>) = Break s'"
  then show "ip s' = ip s + 1" using exec_op_ip[of opc "s\<lparr>ip := ip s + 1\<rparr>" s'] by simp
next
  assume "loop_head n bc (initial_state stdin) = Some t"
  then have "ip t = ip (initial_state stdin) + n"
    and "ip (initial_state stdin) \<le> length bc \<longrightarrow> ip t \<le> length bc"
    using loop_head_ip[of n bc "initial_state stdin" t] by auto
  then show "ip t = n" and "n \<le> length bc" by (simp_all add: initial_state_def)
qed

theorem run_bytecode_terminates_witness:
  "run_bounded 3 [0x01, 0x01, 0x03] (initial_state [''a''])
     = Some (0, \<lparr>ip = 3, stack = [0x61], inp = [], out = []\<rparr>)
   \<and> run_bytecode [0x01, 0x01, 0x03] [''a''] = (0, \<lparr>ip = 3, stack = [0x61], inp = [], out = []\<rparr>)
   \<and> exec_op 0x01 (\<lparr>ip = 0, stack = [], inp = [''a''], out = []\<rparr>\<lparr>ip := 1\<rparr>)
       = Break \<lparr>ip = 1, stack = [0x61], inp = [], out = []\<rparr>
   \<and> loop_head 2 [0x01, 0x01, 0x03] (initial_state [''a''])
       = Some \<lparr>ip = 2, stack = [0x61, 0], inp = [], out = []\<rparr>"
proof -
  let ?bc = "[0x01, 0x01, 0x03] :: byte list"
  have r: "run_bytecode ?bc [''a''] = (0, \<lparr>ip = 3, stack = [0x61], inp = [], out = []\<rparr>)"
    by code_simp
  have e: "exec_op 0x01 (\<lparr>ip = 0, stack = [], inp = [''a''], out = []\<rparr>\<lparr>ip := 1\<rparr>)
       = Break \<lparr>ip = 1, stack = [0x61], inp = [], out = []\<rparr>"
    by code_simp
  have l: "loop_head 2 ?bc (initial_state [''a''])
       = Some \<lparr>ip = 2, stack = [0x61, 0], inp = [], out = []\<rparr>"
    by code_simp
  have n: "length ?bc = 3" by simp
  from run_bytecode_terminates[of ?bc "[''a'']"] r
  have "run_bounded 3 ?bc (initial_state [''a''])
     = Some (0, \<lparr>ip = 3, stack = [0x61], inp = [], out = []\<rparr>)"
    unfolding n by simp
  with r e l show ?thesis by simp
qed

end
